theory Spec2Isabelle
  imports Main "HOL-Library.Stream" "HOL-Library.Sublist"
begin

section \<open>Calendar arithmetic: \<open>compute_yearday\<close>\<close>

text \<open>
  Python integers are unbounded, so every integer of the script is an \<open>int\<close>.
  Python's \<open>%\<close> with a positive right operand is the floor remainder, which is
  \<open>mod\<close> on \<open>int\<close>.
\<close>

text \<open>The condition of the \<open>if\<close> in \<open>compute_yearday\<close> (the leap-year test).\<close>

definition is_leap_year :: "int \<Rightarrow> bool" where
  "is_leap_year year \<longleftrightarrow> year mod 4 = 0 \<and> (year mod 100 \<noteq> 0 \<or> year mod 400 = 0)"

text \<open>
  The slice \<open>xs[:k]\<close> of Python: a negative stop counts from the end of the list, and
  a stop outside the list is clamped.
\<close>

definition py_slice_to :: "'a list \<Rightarrow> int \<Rightarrow> 'a list" where
  "py_slice_to xs k = (if k < 0 then take (nat (int (length xs) + k)) xs else take (nat k) xs)"

definition month_days :: "int \<Rightarrow> int list" where
  "month_days year =
     (let md = [31, 28, 31, 30, 31, 30, 31, 31, 30, 31, 30, 31]
      in if is_leap_year year then md[1 := 29] else md)"

definition compute_yearday :: "int \<Rightarrow> int \<Rightarrow> int \<Rightarrow> int" where
  "compute_yearday year month day = sum_list (py_slice_to (month_days year) (month - 1)) + day"

section \<open>The platform's \<open>time\<close> module\<close>

text \<open>
  Modelled from the spec: \<open>time.mktime\<close> and \<open>time.localtime\<close> belong to the
  firmware's \<open>time\<close> module, which is not part of the script. The spec asks for a single
  pair of conversions between a calendar breakdown and an absolute scalar, consistent in
  its weekday and leap-year handling, and that is what is modelled here: the proleptic
  Gregorian calendar, seconds counted from 1970-01-01 00:00:00, no time zone and no
  daylight saving of its own (the board has neither), Monday as weekday 0.
  As on the board, \<open>mktime\<close> ignores the weekday, yearday and isdst entries of its
  argument and normalises entries that are out of range (day 32 of a 31-day month is the
  first day of the next month), which here is linearity in day, hour, minute and second.
\<close>

record struct_time =
  tm_year :: int
  tm_mon :: int
  tm_mday :: int
  tm_hour :: int
  tm_min :: int
  tm_sec :: int
  tm_wday :: int
  tm_yday :: int
  tm_isdst :: int

type_synonym time_tuple = "int \<times> int \<times> int \<times> int \<times> int \<times> int \<times> int \<times> int \<times> int"

definition tm_leap :: "int \<Rightarrow> bool" where
  "tm_leap y \<longleftrightarrow> 4 dvd y \<and> (\<not> 100 dvd y \<or> 400 dvd y)"

definition days_in_months :: "int \<Rightarrow> int list" where
  "days_in_months y = [31, if tm_leap y then 29 else 28, 31, 30, 31, 30, 31, 31, 30, 31, 30, 31]"

text \<open>The number of days from 0001-01-01 to the first day of year \<open>y\<close>.\<close>

definition days_before_year :: "int \<Rightarrow> int" where
  "days_before_year y = 365 * (y - 1) + (y - 1) div 4 - (y - 1) div 100 + (y - 1) div 400"

definition days_before_month :: "int \<Rightarrow> int \<Rightarrow> int" where
  "days_before_month y m = sum_list (take (nat (m - 1)) (days_in_months y))"

text \<open>The ordinal of a date, 0001-01-01 being day 1; 1970-01-01 is day 719163.\<close>

definition ymd_to_ord :: "int \<Rightarrow> int \<Rightarrow> int \<Rightarrow> int" where
  "ymd_to_ord y m d = days_before_year y + days_before_month y m + d"

definition epoch_ord :: int where
  "epoch_ord = 719163"

fun mktime :: "time_tuple \<Rightarrow> int" where
  "mktime (year, mon, mday, hour, minute, sec, wday, yday, isdst) =
     (let y = year + (mon - 1) div 12;
          m = (mon - 1) mod 12 + 1
      in (ymd_to_ord y m mday - epoch_ord) * 86400 + hour * 3600 + minute * 60 + sec)"

declare mktime.simps [simp del]

text \<open>The year of an ordinal, by cycles of 400, 100, 4 and 1 years.\<close>

definition year_of_ord :: "int \<Rightarrow> int" where
  "year_of_ord n =
     (let n0 = n - 1;
          n400 = n0 div 146097; r400 = n0 mod 146097;
          n100 = r400 div 36524; r100 = r400 mod 36524;
          n4 = r100 div 1461; r4 = r100 mod 1461;
          n1 = r4 div 365;
          y = 400 * n400 + 100 * n100 + 4 * n4 + n1 + 1
      in if n1 = 4 \<or> n100 = 4 then y - 1 else y)"

text \<open>
  \<open>find_month ls m k\<close>: the month and day of the \<open>k\<close>-th day (from 0) of a run of
  months of lengths \<open>ls\<close> whose first month has number \<open>m\<close>.
\<close>

fun find_month :: "int list \<Rightarrow> int \<Rightarrow> int \<Rightarrow> int \<times> int" where
  "find_month [] m k = (m, k + 1)"
| "find_month (l # ls) m k = (if k < l then (m, k + 1) else find_month ls (m + 1) (k - l))"

text \<open>The date of an ordinal: its year, then the month and day within the year.\<close>

definition ord_to_ymd :: "int \<Rightarrow> int \<times> int \<times> int" where
  "ord_to_ymd n =
     (let y = year_of_ord n;
          md = find_month (days_in_months y) 1 (n - days_before_year y - 1)
      in (y, fst md, snd md))"

definition localtime :: "int \<Rightarrow> struct_time" where
  "localtime secs =
     (let days = secs div 86400;
          rem = secs mod 86400;
          ord = days + epoch_ord
      in case ord_to_ymd ord of
           (y, m, d) \<Rightarrow>
             \<lparr>tm_year = y, tm_mon = m, tm_mday = d,
              tm_hour = rem div 3600, tm_min = rem div 60 mod 60, tm_sec = rem mod 60,
              tm_wday = (days + 3) mod 7, tm_yday = ord - days_before_year y,
              tm_isdst = - 1\<rparr>)"

section \<open>The daylight-saving rule: \<open>is_dst\<close>\<close>

definition is_dst :: "int \<Rightarrow> int \<Rightarrow> int \<Rightarrow> int \<Rightarrow> bool" where
  "is_dst year month day hour =
     (let march_first = mktime (year, 3, 1, 0, 0, 0, 0, 0, 0);
          march_first_weekday = tm_wday (localtime march_first);
          first_sunday = 1 + ((6 - march_first_weekday) mod 7);
          second_sunday = first_sunday + 7;
          dst_start = mktime (year, 3, second_sunday, 2, 0, 0, 0, 0, 0);
          november_first = mktime (year, 11, 1, 0, 0, 0, 0, 0, 0);
          november_first_weekday = tm_wday (localtime november_first);
          first_sunday_nov = 1 + ((6 - november_first_weekday) mod 7);
          dst_end = mktime (year, 11, first_sunday_nov, 2, 0, 0, 0, 0, 0);
          current = mktime (year, month, day, hour, 0, 0, 0, 0, 0)
      in dst_start \<le> current \<and> current < dst_end)"

section \<open>The device\<close>

text \<open>
  The script reads and writes three pieces of ambient state: the real-time clock
  (\<open>rtc.RTC().datetime\<close>), the text of the time label, and the display, whose
  \<open>refresh\<close> either succeeds or raises. They are made explicit as a record that every
  operation takes and returns. \<open>rtc_writes\<close> counts the assignments to the clock,
  \<open>refresh_calls\<close> the calls of \<open>display.refresh()\<close>, and \<open>sleeps\<close> lists the
  arguments of the calls of \<open>time.sleep\<close> in order. Printing is left out.
\<close>

record device =
  rtc_datetime :: time_tuple
  rtc_writes :: nat
  time_label_text :: string
  refresh_calls :: nat
  sleeps :: "int list"

text \<open>
  An exception is either a \<open>RuntimeError\<close> (with the text \<open>str(e)\<close> gives) or an
  exception of another class, which \<open>except RuntimeError\<close> does not catch.
\<close>

datatype exn = RuntimeError string | OtherException string

datatype refresh_outcome = Refreshed | Raised exn

section \<open>Synchronising the clock: \<open>setup_time\<close>\<close>

text \<open>
  The value of \<open>ntp.datetime\<close> is the input: the tuple (year, month, day, hour, minute,
  second, subsecond, weekday) that the script unpacks at indices 0 to 5 and 7.
\<close>

type_synonym ntp_tuple = "int \<times> int \<times> int \<times> int \<times> int \<times> int \<times> int \<times> int"

fun setup_time :: "ntp_tuple \<Rightarrow> device \<Rightarrow> device" where
  "setup_time (year, month, day, hour, minute, second, subsecond, weekday) dev =
     (let tz_offset = (if is_dst year month day hour then - 5 * 3600 else - 6 * 3600);
          adjusted_secs = mktime (year, month, day, hour, minute, second, weekday, 0, 0) + tz_offset;
          adjusted_time = localtime adjusted_secs
      in dev\<lparr>rtc_datetime :=
               (tm_year adjusted_time, tm_mon adjusted_time, tm_mday adjusted_time,
                tm_hour adjusted_time, tm_min adjusted_time, tm_sec adjusted_time,
                tm_wday adjusted_time,
                compute_yearday (tm_year adjusted_time) (tm_mon adjusted_time) (tm_mday adjusted_time),
                - 1),
             rtc_writes := rtc_writes dev + 1\<rparr>)"

declare setup_time.simps [simp del]

section \<open>Refreshing the display: \<open>update_display_time\<close>\<close>

text \<open>Decimal digits of a natural number, as \<open>str\<close> prints them.\<close>

definition digit_char :: "nat \<Rightarrow> char" where
  "digit_char d = ''0123456789'' ! d"

fun str_nat :: "nat \<Rightarrow> string" where
  "str_nat n = (if n < 10 then [digit_char n] else str_nat (n div 10) @ [digit_char (n mod 10)])"

declare str_nat.simps [simp del]

text \<open>
  The format \<open>{:02d}\<close>: at least two characters, padded with zeros after the sign.
\<close>

definition format_02d :: "int \<Rightarrow> string" where
  "format_02d i =
     (if i < 0 then CHR ''-'' # str_nat (nat (- i))
      else let ds = str_nat (nat i) in replicate (2 - length ds) CHR ''0'' @ ds)"

text \<open>The \<open>if\<close>/\<open>elif\<close> chain that turns the 24-hour value into a 12-hour one.\<close>

definition to_12_hour :: "int \<Rightarrow> int \<times> string" where
  "to_12_hour hours_24 =
     (if hours_24 = 0 then (12, ''AM'')
      else if hours_24 < 12 then (hours_24, ''AM'')
      else if hours_24 = 12 then (12, ''PM'')
      else (hours_24 - 12, ''PM''))"

definition current_time_str :: "int \<Rightarrow> int \<Rightarrow> string" where
  "current_time_str hours_24 minutes =
     (case to_12_hour hours_24 of
        (hours_12, meridiem) \<Rightarrow> format_02d hours_12 @ '':'' @ format_02d minutes @ '' '' @ meridiem)"

text \<open>\<open>needle in hay\<close> on strings.\<close>

fun contains :: "string \<Rightarrow> string \<Rightarrow> bool" where
  "contains needle [] = (needle = [])"
| "contains needle (c # cs) = (prefix needle (c # cs) \<or> contains needle cs)"

definition is_too_soon :: "exn \<Rightarrow> bool" where
  "is_too_soon e = (case e of RuntimeError msg \<Rightarrow> contains ''Refresh too soon'' msg
                    | OtherException _ \<Rightarrow> False)"

text \<open>
  The \<open>while not refreshed\<close> loop. The outcomes of the successive calls of
  \<open>display.refresh()\<close> are a stream, consumed one per call. The loop need not end, so the
  model is a partial function: \<open>None\<close> means that the loop runs forever. A result is the
  exception raised (\<open>Inl\<close>) or normal completion (\<open>Inr\<close>), the device, and the outcomes
  not yet consumed.
\<close>

type_synonym run_result = "(exn + unit) \<times> device \<times> refresh_outcome stream"

partial_function (option) refresh_loop :: "refresh_outcome stream \<Rightarrow> device \<Rightarrow> run_result option" where
  "refresh_loop outcomes dev =
     (let dev1 = dev\<lparr>refresh_calls := refresh_calls dev + 1\<rparr>
      in case shd outcomes of
           Refreshed \<Rightarrow> Some (Inr (), dev1, stl outcomes)
         | Raised e \<Rightarrow>
             if is_too_soon e
             then refresh_loop (stl outcomes) (dev1\<lparr>sleeps := sleeps dev1 @ [5]\<rparr>)
             else Some (Inl e, dev1, stl outcomes))"

text \<open>
  The first half of \<open>update_display_time\<close>: read the clock, assign the label's text.
\<close>

definition set_time_label :: "device \<Rightarrow> device" where
  "set_time_label dev =
     (case rtc_datetime dev of
        (year, month, day, hours_24, minutes, second, weekday, yearday, isdst) \<Rightarrow>
          dev\<lparr>time_label_text := ''Time: '' @ current_time_str hours_24 minutes\<rparr>)"

definition update_display_time :: "refresh_outcome stream \<Rightarrow> device \<Rightarrow> run_result option" where
  "update_display_time outcomes dev = refresh_loop outcomes (set_time_label dev)"

text \<open>
  The first \<open>n\<close> rounds of the \<open>while True\<close> loop of \<open>main\<close>: update the display, then
  sleep for 60 seconds. An exception ends the loop.
\<close>

fun main_loop :: "nat \<Rightarrow> refresh_outcome stream \<Rightarrow> device \<Rightarrow> run_result option" where
  "main_loop 0 outcomes dev = Some (Inr (), dev, outcomes)"
| "main_loop (Suc n) outcomes dev =
     (case update_display_time outcomes dev of
        None \<Rightarrow> None
      | Some (Inl e, dev', outcomes') \<Rightarrow> Some (Inl e, dev', outcomes')
      | Some (Inr u, dev', outcomes') \<Rightarrow> main_loop n outcomes' (dev'\<lparr>sleeps := sleeps dev' @ [60]\<rparr>))"

section \<open>The specification's calendar\<close>

text \<open>
  The month lengths and the day of the year as the specification words them: the sum of
  the lengths of the months before the given one, February having 29 days exactly in a
  leap year, plus the day. A date is well formed when its month is one of 1 to 12 and its
  day is one of that month in that year; a clock reading is well formed when, in addition,
  hour, minute and second are in range.
\<close>

definition spec_month_length :: "int \<Rightarrow> int \<Rightarrow> int" where
  "spec_month_length year m =
     (if m = 2 then (if 4 dvd year \<and> (\<not> 100 dvd year \<or> 400 dvd year) then 29 else 28)
      else if m \<in> {4, 6, 9, 11} then 30 else 31)"

definition spec_day_of_year :: "int \<Rightarrow> int \<Rightarrow> int \<Rightarrow> int" where
  "spec_day_of_year year month day = sum_list (map (spec_month_length year) [1..month - 1]) + day"

definition valid_date :: "int \<Rightarrow> int \<Rightarrow> int \<Rightarrow> bool" where
  "valid_date year month day \<longleftrightarrow>
     1 \<le> month \<and> month \<le> 12 \<and> 1 \<le> day \<and> day \<le> spec_month_length year month"

definition valid_clock :: "int \<Rightarrow> int \<Rightarrow> int \<Rightarrow> bool" where
  "valid_clock hour minute sec \<longleftrightarrow>
     0 \<le> hour \<and> hour \<le> 23 \<and> 0 \<le> minute \<and> minute \<le> 59 \<and> 0 \<le> sec \<and> sec \<le> 59"

text \<open>
  A \<open>struct_time\<close> is a 9-tuple for \<open>mktime\<close>; the date and clock entries of one.
\<close>

definition tuple_of :: "struct_time \<Rightarrow> time_tuple" where
  "tuple_of t = (tm_year t, tm_mon t, tm_mday t, tm_hour t, tm_min t, tm_sec t,
                 tm_wday t, tm_yday t, tm_isdst t)"

definition instant_of :: "struct_time \<Rightarrow> int \<times> int \<times> int \<times> int \<times> int \<times> int" where
  "instant_of t = (tm_year t, tm_mon t, tm_mday t, tm_hour t, tm_min t, tm_sec t)"

text \<open>
  The daylight-saving window as the specification words it: the weekday of the first of
  the month (Monday is 0), the first Sunday as \<open>1 + ((6 - weekday) mod 7)\<close>, the second
  Sunday seven days later, and the instants at 02:00 of the second Sunday of March and of
  the first Sunday of November.
\<close>

definition weekday_of :: "int \<Rightarrow> int \<Rightarrow> int \<Rightarrow> int" where
  "weekday_of year month day = tm_wday (localtime (mktime (year, month, day, 0, 0, 0, 0, 0, 0)))"

definition spec_second_sunday_march :: "int \<Rightarrow> int" where
  "spec_second_sunday_march year = 1 + ((6 - weekday_of year 3 1) mod 7) + 7"

definition spec_first_sunday_november :: "int \<Rightarrow> int" where
  "spec_first_sunday_november year = 1 + ((6 - weekday_of year 11 1) mod 7)"

definition spec_dst_start :: "int \<Rightarrow> int" where
  "spec_dst_start year = mktime (year, 3, spec_second_sunday_march year, 2, 0, 0, 0, 0, 0)"

definition spec_dst_end :: "int \<Rightarrow> int" where
  "spec_dst_end year = mktime (year, 11, spec_first_sunday_november year, 2, 0, 0, 0, 0, 0)"

text \<open>
  The specification's classification of the outcomes of a refresh attempt: the transient
  ``refreshed too soon'' condition, which is retried, against success and every other
  error, which end the loop with the result \<open>outcome_result\<close>.
\<close>

definition transient :: "refresh_outcome \<Rightarrow> bool" where
  "transient outcome = (case outcome of Refreshed \<Rightarrow> False | Raised e \<Rightarrow> is_too_soon e)"

definition outcome_result :: "refresh_outcome \<Rightarrow> exn + unit" where
  "outcome_result outcome = (case outcome of Refreshed \<Rightarrow> Inr () | Raised e \<Rightarrow> Inl e)"

text \<open>
  The specification's shape \<open>HH:MM AM|PM\<close>: two digits, a colon, two digits, a space,
  and one of \<open>AM\<close> and \<open>PM\<close>.
\<close>

definition is_digit :: "char \<Rightarrow> bool" where
  "is_digit c \<longleftrightarrow> c \<in> set ''0123456789''"

definition is_hh_mm_meridiem :: "string \<Rightarrow> bool" where
  "is_hh_mm_meridiem s \<longleftrightarrow>
     (case s of
        [h1, h0, colon, m1, m0, space, x, y] \<Rightarrow>
          is_digit h1 \<and> is_digit h0 \<and> colon = CHR '':'' \<and> is_digit m1 \<and> is_digit m0 \<and>
          space = CHR '' '' \<and> ([x, y] = ''AM'' \<or> [x, y] = ''PM'')
      | _ \<Rightarrow> False)"

section \<open>Properties of the calendar model\<close>

lemma div_eqI: "0 \<le> r \<Longrightarrow> r < k \<Longrightarrow> n = k * q + r \<Longrightarrow> n div k = (q::int)"
  by (simp add: div_pos_pos_trivial)

lemma div_step: 
  assumes k: "0 < k"
  shows "(y::int) div k - (y - 1) div k = (if k dvd y then 1 else 0)"
proof (cases "k dvd y")
  case True
  then obtain q where q: "y = k * q" by (auto simp: dvd_def)
  have "(y - 1) div k = q - 1"
    by (rule div_eqI[where r="k - 1"]) (use k q in \<open>simp_all add: algebra_simps\<close>)
  moreover have "y div k = q" using k q by simp
  ultimately show ?thesis using True by simp
next
  case False
  then have "y mod k \<noteq> 0" by (simp add: dvd_eq_mod_eq_0)
  moreover have "0 \<le> y mod k" "y mod k < k" using k by simp_all
  ultimately have "0 \<le> y mod k - 1" "y mod k - 1 < k" by linarith+
  then have "(y - 1) div k = y div k"
    by (rule div_eqI) (simp add: algebra_simps)
  then show ?thesis using False by simp
qed

lemma dvd_chain: "400 dvd (y::int) \<Longrightarrow> 100 dvd y" "100 dvd (y::int) \<Longrightarrow> 4 dvd y"
proof -
  have "(100::int) dvd 400" "(4::int) dvd 100" by simp_all
  then show "400 dvd y \<Longrightarrow> 100 dvd y" "100 dvd y \<Longrightarrow> 4 dvd y"
    by (blast intro: dvd_trans)+
qed

lemma step_arith:
  fixes A B C :: int
  assumes "A = A' + i4" "B = B' + i100" "C = C' + i400"
  shows "365 * y + A - B + C = (365 * (y - 1) + A' - B' + C') + 365 + (i4 - i100 + i400)"
  using assms by (simp add: algebra_simps)

lemma days_before_year_plus1: "days_before_year (y + 1) = 365 * y + y div 4 - y div 100 + y div 400"
  by (simp add: days_before_year_def)

lemma days_before_year_Suc:
  "days_before_year (y + 1) = days_before_year y + (if tm_leap y then 366 else 365)"
proof -
  define i4 i100 i400 :: int where "i4 = (if 4 dvd y then 1 else 0)"
    and "i100 = (if 100 dvd y then 1 else 0)" and "i400 = (if 400 dvd y then 1 else 0)"
  have e4: "y div 4 = (y - 1) div 4 + i4"
    using div_step[of 4 y] unfolding i4_def by (simp only: algebra_simps)
  have e100: "y div 100 = (y - 1) div 100 + i100"
    using div_step[of 100 y] unfolding i100_def by (simp only: algebra_simps)
  have e400: "y div 400 = (y - 1) div 400 + i400"
    using div_step[of 400 y] unfolding i400_def by (simp only: algebra_simps)
  have "days_before_year (y + 1) = days_before_year y + 365 + (i4 - i100 + i400)"
    unfolding days_before_year_plus1 unfolding days_before_year_def
    by (rule step_arith[OF e4 e100 e400])
  moreover have "i4 - i100 + i400 = (if tm_leap y then 1 else 0)"
    using dvd_chain[of y] unfolding tm_leap_def i4_def i100_def i400_def
    by (cases "4 dvd y"; cases "100 dvd y"; cases "400 dvd y"; simp)
  ultimately show ?thesis by simp
qed

lemma dby_decomp:
  assumes "0 \<le> b" "b \<le> 3" "0 \<le> c" "c \<le> 24" "0 \<le> e" "e \<le> 3"
  shows "days_before_year (400 * a + 100 * b + 4 * c + e + 1) =
    146097 * a + 36524 * b + 1461 * c + 365 * e"
proof -
  let ?x = "400 * a + 100 * b + 4 * c + e"
  have d4: "?x div 4 = 100 * a + 25 * b + c"
    by (rule div_eqI[where r=e]) (use assms in simp_all)
  have d100: "?x div 100 = 4 * a + b"
    by (rule div_eqI[where r="4 * c + e"]) (use assms in simp_all)
  have d400: "?x div 400 = a"
    by (rule div_eqI[where r="100 * b + 4 * c + e"]) (use assms in simp_all)
  have x: "?x + 1 - 1 = ?x" by simp
  show ?thesis
    unfolding days_before_year_def x d4 d100 d400 by (simp add: algebra_simps)
qed

lemma days_before_year_mono: "y \<le> y' \<Longrightarrow> days_before_year y \<le> days_before_year y'"
proof (induction y' rule: int_ge_induct)
  case base
  show ?case by simp
next
  case (step i)
  then show ?case by (simp add: days_before_year_Suc)
qed

lemma year_unique:
  assumes "days_before_year y < n" "n \<le> days_before_year (y + 1)"
    and "days_before_year y' < n" "n \<le> days_before_year (y' + 1)"
  shows "y = y'"
proof (rule ccontr)
  assume "y \<noteq> y'"
  then consider "y + 1 \<le> y'" | "y' + 1 \<le> y" by linarith
  then show False
  proof cases
    case 1
    from days_before_year_mono[OF 1] assms show False by linarith
  next
    case 2
    from days_before_year_mono[OF 2] assms show False by linarith
  qed
qed

lemma not_dvd_offset: "0 < r \<Longrightarrow> r < k \<Longrightarrow> \<not> k dvd (k * q + (r::int))"
  by (simp add: dvd_eq_mod_eq_0 mod_pos_pos_trivial)

lemma year_of_ord_bounds:
  "days_before_year (year_of_ord n) < n \<and> n \<le> days_before_year (year_of_ord n + 1)"
proof -
  define n0 where "n0 = n - 1"
  define a where "a = n0 div 146097"
  define r where "r = n0 mod 146097"
  define b where "b = r div 36524"
  define r1 where "r1 = r mod 36524"
  define c where "c = r1 div 1461"
  define r2 where "r2 = r1 mod 1461"
  define e where "e = r2 div 365"
  define r3 where "r3 = r2 mod 365"
  define Y where "Y = 400 * a + 100 * b + 4 * c + e + 1"
  have n0: "n0 = 146097 * a + r" and r_bd: "0 \<le> r" "r < 146097"
    by (simp_all add: a_def r_def)
  have r: "r = 36524 * b + r1" and r1_bd: "0 \<le> r1" "r1 < 36524"
    by (simp_all add: b_def r1_def)
  have r1: "r1 = 1461 * c + r2" and r2_bd: "0 \<le> r2" "r2 < 1461"
    by (simp_all add: c_def r2_def)
  have r2: "r2 = 365 * e + r3" and r3_bd: "0 \<le> r3" "r3 < 365"
    by (simp_all add: e_def r3_def)
  have b_bd: "0 \<le> b" "b \<le> 4" using r r_bd r1_bd by linarith+
  have c_bd: "0 \<le> c" "c \<le> 24" using r1 r1_bd r2_bd by linarith+
  have e_bd: "0 \<le> e" "e \<le> 4" using r2 r2_bd r3_bd by linarith+
  have n: "n = 146097 * a + 36524 * b + 1461 * c + 365 * e + r3 + 1"
    using n0 r r1 r2 by (simp add: n0_def)
  have yr: "year_of_ord n = (if e = 4 \<or> b = 4 then Y - 1 else Y)"
    by (simp only: year_of_ord_def Let_def n0_def[symmetric] a_def[symmetric] r_def[symmetric]
        b_def[symmetric] r1_def[symmetric] c_def[symmetric] r2_def[symmetric] e_def[symmetric]
        Y_def[symmetric])
  consider (normal) "b \<le> 3" "e \<le> 3" | (leap_end) "b \<le> 3" "e = 4" | (cycle_end) "b = 4"
    using b_bd e_bd by linarith
  then show ?thesis
  proof cases
    case normal
    then have y: "year_of_ord n = Y" using yr by simp
    have d: "days_before_year Y = 146097 * a + 36524 * b + 1461 * c + 365 * e"
      unfolding Y_def using b_bd c_bd e_bd normal by (intro dby_decomp) simp_all
    have "days_before_year Y + 365 \<le> days_before_year (Y + 1)"
      by (simp add: days_before_year_Suc)
    with d n r3_bd show ?thesis unfolding y by linarith
  next
    case leap_end
    then have y: "year_of_ord n = Y - 1" using yr by simp
    have r3_0: "r3 = 0" using r2 r2_bd r3_bd leap_end by linarith
    have c23: "c \<le> 23" using r1 r1_bd r2 r3_bd leap_end by linarith
    have Y1: "Y - 1 = 400 * a + 100 * b + 4 * c + 3 + 1" using leap_end by (simp add: Y_def)
    have d: "days_before_year (Y - 1) = 146097 * a + 36524 * b + 1461 * c + 365 * 3"
      unfolding Y1 using b_bd c_bd leap_end by (intro dby_decomp) simp_all
    have "4 dvd (Y - 1)"
    proof -
      have "Y - 1 = 4 * (100 * a + 25 * b + c + 1)" using Y1 by simp
      then show ?thesis by (simp only: dvd_triv_left)
    qed
    moreover have "\<not> 100 dvd (Y - 1)"
    proof -
      have "Y - 1 = 100 * (4 * a + b) + (4 * c + 4)" using Y1 by simp
      moreover have "0 < 4 * c + 4" "4 * c + 4 < 100" using c_bd c23 by linarith+
      ultimately show ?thesis by (simp only: not_dvd_offset not_False_eq_True)
    qed
    ultimately have "tm_leap (Y - 1)" by (simp add: tm_leap_def)
    then have "days_before_year (Y - 1 + 1) = days_before_year (Y - 1) + 366"
      by (simp only: days_before_year_Suc if_True)
    with d n r3_0 leap_end show ?thesis unfolding y by linarith
  next
    case cycle_end
    then have y: "year_of_ord n = Y - 1" using yr by simp
    have r1_0: "r1 = 0" using r r_bd r1_bd cycle_end by linarith
    then have c0: "c = 0" and r2_0: "r2 = 0" by (simp_all add: c_def r2_def)
    then have e0: "e = 0" and r3_0: "r3 = 0" by (simp_all add: e_def r3_def)
    have Y1: "Y - 1 = 400 * a + 100 * 3 + 4 * 24 + 3 + 1" using cycle_end c0 e0 by (simp add: Y_def)
    have d: "days_before_year (Y - 1) = 146097 * a + 36524 * 3 + 1461 * 24 + 365 * 3"
      unfolding Y1 by (intro dby_decomp) simp_all
    have "400 dvd (Y - 1)"
    proof -
      have "Y - 1 = 400 * (a + 1)" using Y1 by simp
      then show ?thesis by (simp only: dvd_triv_left)
    qed
    then have "tm_leap (Y - 1)" using dvd_chain[of "Y - 1"] by (simp add: tm_leap_def)
    then have "days_before_year (Y - 1 + 1) = days_before_year (Y - 1) + 366"
      by (simp only: days_before_year_Suc if_True)
    with d n r3_0 c0 e0 cycle_end show ?thesis unfolding y by linarith
  qed
qed

lemma year_of_ordI:
  assumes "days_before_year y < n" "n \<le> days_before_year (y + 1)"
  shows "year_of_ord n = y"
  using year_unique[OF _ _ assms] year_of_ord_bounds[of n] by blast


lemma days_in_months_pos: "\<forall>l \<in> set (days_in_months y). 0 < l"
  by (simp add: days_in_months_def)

lemma length_days_in_months: "length (days_in_months y) = 12"
  by (simp add: days_in_months_def)

lemma sum_days_in_months: "sum_list (days_in_months y) = (if tm_leap y then 366 else 365)"
  by (simp add: days_in_months_def)

lemma sum_list_take_nonneg: "\<forall>l \<in> set ls. 0 < (l::int) \<Longrightarrow> 0 \<le> sum_list (take i ls)"
  by (rule sum_list_nonneg) (auto dest!: in_set_takeD intro: less_imp_le)

lemma sum_list_take_Suc_le:
  "\<forall>l \<in> set ls. 0 < (l::int) \<Longrightarrow> i < length ls \<Longrightarrow> sum_list (take i ls) + ls ! i \<le> sum_list ls"
proof (induction ls arbitrary: i)
  case Nil
  then show ?case by simp
next
  case (Cons l ls)
  show ?case
  proof (cases i)
    case 0
    have "0 \<le> sum_list ls" using Cons.prems(1) by (intro sum_list_nonneg) (auto intro: less_imp_le)
    then show ?thesis using 0 by simp
  next
    case (Suc j)
    then show ?thesis using Cons.IH[of j] Cons.prems by simp
  qed
qed

lemma find_month_take:
  "\<forall>l \<in> set ls. 0 < l \<Longrightarrow> i < length ls \<Longrightarrow> 0 \<le> d \<Longrightarrow> d < ls ! i \<Longrightarrow>
   find_month ls m (sum_list (take i ls) + d) = (m + int i, d + 1)"
proof (induction ls arbitrary: i m)
  case Nil
  then show ?case by simp
next
  case (Cons l ls)
  show ?case
  proof (cases i)
    case 0
    then show ?thesis using Cons.prems by simp
  next
    case (Suc j)
    have "0 \<le> sum_list (take j ls)" using Cons.prems(1) by (intro sum_list_take_nonneg) simp
    then have "\<not> l + sum_list (take j ls) + d < l" using Cons.prems(3) by linarith
    moreover have "find_month ls (m + 1) (sum_list (take j ls) + d) = (m + 1 + int j, d + 1)"
      using Cons.prems Suc by (intro Cons.IH) simp_all
    ultimately show ?thesis using Suc by (simp add: algebra_simps)
  qed
qed

lemma find_month_inv:
  "\<forall>l \<in> set ls. 0 < l \<Longrightarrow> 0 \<le> k \<Longrightarrow> k < sum_list ls \<Longrightarrow>
   \<exists>i < length ls. find_month ls m k = (m + int i, k - sum_list (take i ls) + 1)
      \<and> sum_list (take i ls) \<le> k \<and> k - sum_list (take i ls) < ls ! i"
proof (induction ls arbitrary: m k)
  case Nil
  then show ?case by simp
next
  case (Cons l ls)
  show ?case
  proof (cases "k < l")
    case True
    then show ?thesis using Cons.prems by (intro exI[of _ 0]) simp
  next
    case False
    then have "0 \<le> k - l" "k - l < sum_list ls" using Cons.prems by simp_all
    from Cons.IH[OF _ this, of "m + 1"] Cons.prems(1)
    obtain i where i: "i < length ls"
      "find_month ls (m + 1) (k - l) = (m + 1 + int i, k - l - sum_list (take i ls) + 1)"
      "sum_list (take i ls) \<le> k - l" "k - l - sum_list (take i ls) < ls ! i"
      by auto
    show ?thesis
      using False i by (intro exI[of _ "Suc i"]) (simp add: algebra_simps)
  qed
qed

lemma month_cases: "1 \<le> (m::int) \<Longrightarrow> m \<le> 12 \<Longrightarrow> m \<in> {1,2,3,4,5,6,7,8,9,10,11,12}"
  by simp arith

lemma days_in_months_nth:
  assumes "1 \<le> m" "m \<le> 12"
  shows "days_in_months y ! nat (m - 1) = spec_month_length y m"
proof -
  have "m \<in> {1,2,3,4,5,6,7,8,9,10,11,12}" using assms by (rule month_cases)
  then show ?thesis
    unfolding days_in_months_def spec_month_length_def tm_leap_def
    by (cases "4 dvd y \<and> (\<not> 100 dvd y \<or> 400 dvd y)") auto
qed

lemma days_before_year_next: "days_before_year (y + 1) = days_before_year y + sum_list (days_in_months y)"
  by (simp only: days_before_year_Suc sum_days_in_months)

lemma ord_to_ymd_ymd_to_ord:
  assumes "valid_date y m d"
  shows "ord_to_ymd (ymd_to_ord y m d) = (y, m, d)"
proof -
  define ls where "ls = days_in_months y"
  define i where "i = nat (m - 1)"
  have m: "1 \<le> m" "m \<le> 12" and d: "1 \<le> d" "d \<le> spec_month_length y m"
    using assms by (simp_all add: valid_date_def)
  have pos: "\<forall>l \<in> set ls. 0 < l" unfolding ls_def by (rule days_in_months_pos)
  have i: "i < length ls" "m = 1 + int i"
    using m by (simp_all add: i_def ls_def length_days_in_months)
  have di: "d \<le> ls ! i" using d days_in_months_nth[OF m, of y] by (simp add: ls_def i_def)
  have ord: "ymd_to_ord y m d = days_before_year y + sum_list (take i ls) + d"
    by (simp add: ymd_to_ord_def days_before_month_def ls_def i_def)
  have "0 \<le> sum_list (take i ls)" using pos by (rule sum_list_take_nonneg)
  moreover have "sum_list (take i ls) + ls ! i \<le> sum_list ls"
    using pos i(1) by (rule sum_list_take_Suc_le)
  ultimately have "days_before_year y < ymd_to_ord y m d"
    "ymd_to_ord y m d \<le> days_before_year (y + 1)"
    unfolding days_before_year_next ord ls_def[symmetric] using d(1) di by linarith+
  then have yr: "year_of_ord (ymd_to_ord y m d) = y" by (rule year_of_ordI)
  have "find_month ls 1 (sum_list (take i ls) + (d - 1)) = (1 + int i, d - 1 + 1)"
    using pos i(1) d(1) di by (intro find_month_take) simp_all
  moreover have "ymd_to_ord y m d - days_before_year y - 1 = sum_list (take i ls) + (d - 1)"
    using ord by simp
  ultimately have "find_month ls 1 (ymd_to_ord y m d - days_before_year y - 1) = (1 + int i, d - 1 + 1)"
    by (simp only:)
  then have fm: "find_month (days_in_months y) 1 (ymd_to_ord y m d - days_before_year y - 1) = (m, d)"
    unfolding ls_def i(2) by simp
  show ?thesis
    unfolding ord_to_ymd_def Let_def yr fm by simp
qed

lemma ymd_to_ord_ord_to_ymd:
  assumes "ord_to_ymd n = (y, m, d)"
  shows "valid_date y m d \<and> ymd_to_ord y m d = n"
proof -
  define ls where "ls = days_in_months y"
  define k where "k = n - days_before_year y - 1"
  have y: "y = year_of_ord n"
    using assms by (simp add: ord_to_ymd_def Let_def)
  have md: "find_month ls 1 k = (m, d)"
    using assms unfolding ord_to_ymd_def Let_def y[symmetric] ls_def k_def
    by (simp add: prod_eq_iff)
  have pos: "\<forall>l \<in> set ls. 0 < l" unfolding ls_def by (rule days_in_months_pos)
  have "days_before_year y < n" "n \<le> days_before_year y + sum_list ls"
    using year_of_ord_bounds[of n] unfolding y[symmetric] days_before_year_next ls_def by simp_all
  then have k: "0 \<le> k" "k < sum_list ls" by (simp_all add: k_def)
  from find_month_inv[OF pos k, of 1] md
  obtain i where i: "i < length ls" "m = 1 + int i" "d = k - sum_list (take i ls) + 1"
    "sum_list (take i ls) \<le> k" "k - sum_list (take i ls) < ls ! i"
    by auto
  have m: "1 \<le> m" "m \<le> 12" using i(1,2) by (simp_all add: ls_def length_days_in_months)
  have ni: "nat (m - 1) = i" using i(2) by simp
  have "ls ! i = spec_month_length y m"
    using days_in_months_nth[OF m, of y] by (simp add: ni ls_def)
  then have "valid_date y m d" using m i(3,4,5) by (simp add: valid_date_def)
  moreover have "ymd_to_ord y m d = n"
    using i(3) by (simp add: ymd_to_ord_def days_before_month_def ni ls_def[symmetric] k_def)
  ultimately show ?thesis by simp
qed

lemma mod_eqI: "0 \<le> r \<Longrightarrow> r < k \<Longrightarrow> n = k * q + r \<Longrightarrow> n mod k = (r::int)"
  by (simp add: mod_pos_pos_trivial)

lemma mktime_in_range:
  assumes "1 \<le> m" "m \<le> 12"
  shows "mktime (y, m, d, h, mi, s, wd, yd, dst) =
    (ymd_to_ord y m d - epoch_ord) * 86400 + h * 3600 + mi * 60 + s"
proof -
  have "(m - 1) div 12 = 0" using assms by (intro div_eqI[where r="m - 1"]) simp_all
  moreover have "(m - 1) mod 12 = m - 1" using assms by (intro mod_eqI[where q=0]) simp_all
  ultimately show ?thesis by (simp add: mktime.simps Let_def)
qed

lemma clock_split:
  assumes "valid_clock h mi s"
  defines "t \<equiv> h * 3600 + mi * 60 + s"
  shows "0 \<le> t" "t < 86400" "t div 3600 = h" "t div 60 mod 60 = mi" "t mod 60 = s"
proof -
  have b: "0 \<le> h" "h \<le> 23" "0 \<le> mi" "mi \<le> 59" "0 \<le> s" "s \<le> 59"
    using assms(1) by (simp_all add: valid_clock_def)
  show "0 \<le> t" "t < 86400" using b by (simp_all add: t_def)
  show "t div 3600 = h"
    using b by (intro div_eqI[where r="mi * 60 + s"]) (simp_all add: t_def)
  have "t div 60 = h * 60 + mi"
    using b by (intro div_eqI[where r=s]) (simp_all add: t_def)
  moreover have "(h * 60 + mi) mod 60 = mi"
    using b by (intro mod_eqI[where q=h]) simp_all
  ultimately show "t div 60 mod 60 = mi" by (simp only:)
  show "t mod 60 = s"
    using b by (intro mod_eqI[where q="h * 60 + mi"]) (simp_all add: t_def)
qed

lemma join_arith:
  fixes Q R S q t :: int
  assumes "Q * 60 + R = q" "q * 60 + S = t"
  shows "Q * 3600 + R * 60 + S = t"
  unfolding assms[symmetric] by (simp add: algebra_simps)

lemma clock_join:
  fixes t :: int
  shows "t div 3600 * 3600 + t div 60 mod 60 * 60 + t mod 60 = t"
proof -
  have "(3600::int) = 60 * 60" by simp
  have e: "t div 3600 = t div 60 div 60"
    unfolding \<open>(3600::int) = 60 * 60\<close> by (rule zdiv_zmult2_eq) simp
  show ?thesis
    unfolding e by (rule join_arith; rule div_mult_mod_eq)
qed

lemma clock_range:
  fixes secs :: int
  defines "t \<equiv> secs mod 86400"
  shows "valid_clock (t div 3600) (t div 60 mod 60) (t mod 60)"
proof -
  have t: "0 \<le> t" "t < 86400" by (simp_all add: t_def)
  have "t div 3600 < 24" using t by (simp add: div_less_iff_less_mult)
  moreover have "0 \<le> t div 3600" using t by (simp add: pos_imp_zdiv_nonneg_iff)
  moreover have "0 \<le> t div 60 mod 60" "t div 60 mod 60 < 60" "0 \<le> t mod 60" "t mod 60 < 60"
    by simp_all
  ultimately show ?thesis unfolding valid_clock_def by linarith
qed

lemma localtime_mktime:
  assumes "valid_date y m d" "valid_clock h mi s"
  shows "localtime (mktime (y, m, d, h, mi, s, wd, yd, dst)) =
    \<lparr>tm_year = y, tm_mon = m, tm_mday = d, tm_hour = h, tm_min = mi, tm_sec = s,
     tm_wday = (ymd_to_ord y m d - epoch_ord + 3) mod 7,
     tm_yday = ymd_to_ord y m d - days_before_year y, tm_isdst = - 1\<rparr>"
proof -
  define D where "D = ymd_to_ord y m d - epoch_ord"
  define t where "t = h * 3600 + mi * 60 + s"
  have m: "1 \<le> m" "m \<le> 12" using assms(1) by (simp_all add: valid_date_def)
  have secs: "mktime (y, m, d, h, mi, s, wd, yd, dst) = 86400 * D + t"
    unfolding mktime_in_range[OF m] D_def t_def by simp
  note c = clock_split[OF assms(2), folded t_def]
  have dv: "(86400 * D + t) div 86400 = D" using c(1,2) by (intro div_eqI[where r=t]) simp_all
  have md: "(86400 * D + t) mod 86400 = t" using c(1,2) by (intro mod_eqI[where q=D]) simp_all
  have o: "ord_to_ymd (D + epoch_ord) = (y, m, d)"
    using ord_to_ymd_ymd_to_ord[OF assms(1)] by (simp add: D_def)
  show ?thesis
    unfolding secs localtime_def Let_def dv md o c(3,4,5) by (simp add: D_def)
qed

lemma mktime_localtime: "mktime (tuple_of (localtime secs)) = secs"
proof -
  define D where "D = secs div 86400"
  define t where "t = secs mod 86400"
  obtain y m d where o: "ord_to_ymd (D + epoch_ord) = (y, m, d)" by (cases "ord_to_ymd (D + epoch_ord)")
  from ymd_to_ord_ord_to_ymd[OF o] have v: "valid_date y m d" and e: "ymd_to_ord y m d = D + epoch_ord"
    by simp_all
  have m: "1 \<le> m" "m \<le> 12" using v by (simp_all add: valid_date_def)
  have "mktime (tuple_of (localtime secs)) =
      mktime (y, m, d, t div 3600, t div 60 mod 60, t mod 60, (D + 3) mod 7, D + epoch_ord - days_before_year y, - 1)"
    unfolding localtime_def Let_def D_def[symmetric] t_def[symmetric] o by (simp add: tuple_of_def)
  also have "\<dots> = D * 86400 + (t div 3600 * 3600 + t div 60 mod 60 * 60 + t mod 60)"
    unfolding mktime_in_range[OF m] e by simp
  also have "\<dots> = D * 86400 + t" by (simp only: clock_join)
  also have "\<dots> = secs" unfolding D_def t_def by (rule div_mult_mod_eq)
  finally show ?thesis .
qed

lemma localtime_valid:
  "valid_date (tm_year (localtime secs)) (tm_mon (localtime secs)) (tm_mday (localtime secs))"
  "valid_clock (tm_hour (localtime secs)) (tm_min (localtime secs)) (tm_sec (localtime secs))"
proof -
  define D where "D = secs div 86400"
  obtain y m d where o: "ord_to_ymd (D + epoch_ord) = (y, m, d)" by (cases "ord_to_ymd (D + epoch_ord)")
  from ymd_to_ord_ord_to_ymd[OF o] have v: "valid_date y m d" by simp
  show "valid_date (tm_year (localtime secs)) (tm_mon (localtime secs)) (tm_mday (localtime secs))"
    unfolding localtime_def Let_def D_def[symmetric] o using v by simp
  show "valid_clock (tm_hour (localtime secs)) (tm_min (localtime secs)) (tm_sec (localtime secs))"
    unfolding localtime_def Let_def D_def[symmetric] o using clock_range[of secs] by simp
qed

section \<open>Properties of the daylight-saving rule\<close>

lemma is_dst_spec:
  "is_dst year month day hour \<longleftrightarrow>
     spec_dst_start year \<le> mktime (year, month, day, hour, 0, 0, 0, 0, 0) \<and>
     mktime (year, month, day, hour, 0, 0, 0, 0, 0) < spec_dst_end year"
  unfolding is_dst_def Let_def spec_dst_start_def spec_dst_end_def spec_second_sunday_march_def
    spec_first_sunday_november_def weekday_of_def
  by (rule refl)

lemma valid_clock_zero: "valid_clock 0 0 0"
  by (simp add: valid_clock_def)

lemma weekday_of_eq:
  assumes "valid_date y m d"
  shows "weekday_of y m d = (ymd_to_ord y m d - epoch_ord + 3) mod 7"
  unfolding weekday_of_def localtime_mktime[OF assms valid_clock_zero] by simp

lemma valid_date_month_start: "valid_date y 3 d \<longleftrightarrow> 1 \<le> d \<and> d \<le> 31"
  "valid_date y 11 d \<longleftrightarrow> 1 \<le> d \<and> d \<le> 30"
  by (simp_all add: valid_date_def spec_month_length_def)

lemma ymd_to_ord_day: "ymd_to_ord y m d = ymd_to_ord y m 1 + (d - 1)"
  by (simp add: ymd_to_ord_def)

lemma second_sunday_range: "8 \<le> spec_second_sunday_march y" "spec_second_sunday_march y \<le> 14"
proof -
  have "0 \<le> (6 - weekday_of y 3 1) mod 7" "(6 - weekday_of y 3 1) mod 7 < 7" by simp_all
  then show "8 \<le> spec_second_sunday_march y" "spec_second_sunday_march y \<le> 14"
    unfolding spec_second_sunday_march_def by linarith+
qed

lemma first_sunday_range: "1 \<le> spec_first_sunday_november y" "spec_first_sunday_november y \<le> 7"
proof -
  have "0 \<le> (6 - weekday_of y 11 1) mod 7" "(6 - weekday_of y 11 1) mod 7 < 7" by simp_all
  then show "1 \<le> spec_first_sunday_november y" "spec_first_sunday_november y \<le> 7"
    unfolding spec_first_sunday_november_def by linarith+
qed

lemma sunday_arith: "((W::int) + (6 - W mod 7) mod 7) mod 7 = 6"
  by presburger

lemma second_sunday_is_sunday: "weekday_of y 3 (spec_second_sunday_march y) = 6"
proof -
  define W where "W = ymd_to_ord y 3 1 - epoch_ord + 3"
  have v1: "valid_date y 3 1" by (simp add: valid_date_month_start)
  have v: "valid_date y 3 (spec_second_sunday_march y)"
    using second_sunday_range[of y] by (simp add: valid_date_month_start)
  have w1: "weekday_of y 3 1 = W mod 7" unfolding weekday_of_eq[OF v1] W_def by simp
  define x where "x = (6 - W mod 7) mod 7"
  have ss: "spec_second_sunday_march y = 1 + x + 7"
    unfolding spec_second_sunday_march_def w1 x_def by (rule refl)
  have "ymd_to_ord y 3 (spec_second_sunday_march y) - epoch_ord + 3 = (W + x) + 7"
    unfolding ymd_to_ord_day[of y 3 "spec_second_sunday_march y"] unfolding ss W_def by simp
  then have "ymd_to_ord y 3 (spec_second_sunday_march y) - epoch_ord + 3 = (W + (6 - W mod 7) mod 7) + 7"
    unfolding x_def .
  then have "weekday_of y 3 (spec_second_sunday_march y) = ((W + (6 - W mod 7) mod 7) + 7) mod 7"
    unfolding weekday_of_eq[OF v] by (simp only:)
  also have "\<dots> = (W + (6 - W mod 7) mod 7) mod 7" by (rule mod_add_self2)
  also have "\<dots> = 6" by (rule sunday_arith)
  finally show ?thesis .
qed

lemma first_sunday_is_sunday: "weekday_of y 11 (spec_first_sunday_november y) = 6"
proof -
  define W where "W = ymd_to_ord y 11 1 - epoch_ord + 3"
  have v1: "valid_date y 11 1" by (simp add: valid_date_month_start)
  have v: "valid_date y 11 (spec_first_sunday_november y)"
    using first_sunday_range[of y] by (simp add: valid_date_month_start)
  have w1: "weekday_of y 11 1 = W mod 7" unfolding weekday_of_eq[OF v1] W_def by simp
  define x where "x = (6 - W mod 7) mod 7"
  have fs: "spec_first_sunday_november y = 1 + x"
    unfolding spec_first_sunday_november_def w1 x_def by (rule refl)
  have "ymd_to_ord y 11 (spec_first_sunday_november y) - epoch_ord + 3 = W + x"
    unfolding ymd_to_ord_day[of y 11 "spec_first_sunday_november y"] unfolding fs W_def by simp
  then have "ymd_to_ord y 11 (spec_first_sunday_november y) - epoch_ord + 3 = W + (6 - W mod 7) mod 7"
    unfolding x_def .
  then have "weekday_of y 11 (spec_first_sunday_november y) = (W + (6 - W mod 7) mod 7) mod 7"
    unfolding weekday_of_eq[OF v] by (simp only:)
  also have "\<dots> = 6" by (rule sunday_arith)
  finally show ?thesis .
qed

lemma days_before_month_vals:
  "days_before_month y 1 = 0"
  "days_before_month y 2 = 31"
  "days_before_month y 3 = (if tm_leap y then 60 else 59)"
  "days_before_month y 4 = (if tm_leap y then 91 else 90)"
  "days_before_month y 5 = (if tm_leap y then 121 else 120)"
  "days_before_month y 6 = (if tm_leap y then 152 else 151)"
  "days_before_month y 7 = (if tm_leap y then 182 else 181)"
  "days_before_month y 8 = (if tm_leap y then 213 else 212)"
  "days_before_month y 9 = (if tm_leap y then 244 else 243)"
  "days_before_month y 10 = (if tm_leap y then 274 else 273)"
  "days_before_month y 11 = (if tm_leap y then 305 else 304)"
  "days_before_month y 12 = (if tm_leap y then 335 else 334)"
  by (simp_all add: days_before_month_def days_in_months_def)

lemma mktime_hour:
  assumes "1 \<le> m" "m \<le> 12"
  shows "mktime (y, m, d, h, 0, 0, 0, 0, 0) =
    (days_before_year y + days_before_month y m + d - epoch_ord) * 86400 + h * 3600"
  unfolding mktime_in_range[OF assms] ymd_to_ord_def by simp

lemma spec_dst_start_eq:
  "spec_dst_start y =
     (days_before_year y + days_before_month y 3 + spec_second_sunday_march y - epoch_ord) * 86400 + 7200"
  unfolding spec_dst_start_def by (simp add: mktime_hour)

lemma spec_dst_end_eq:
  "spec_dst_end y =
     (days_before_year y + days_before_month y 3 + 245 + spec_first_sunday_november y - epoch_ord) * 86400 + 7200"
  unfolding spec_dst_end_def by (simp add: mktime_hour days_before_month_vals)

lemma dst_start_before_end: "spec_dst_start y + 86400 * 232 \<le> spec_dst_end y"
  unfolding spec_dst_start_eq spec_dst_end_eq
  using second_sunday_range[of y] first_sunday_range[of y] by (simp add: algebra_simps)

lemma is_dst_boundaries:
  "is_dst y 3 (spec_second_sunday_march y) 2"
  "\<not> is_dst y 3 (spec_second_sunday_march y) 1"
  "\<not> is_dst y 11 (spec_first_sunday_november y) 2"
  "is_dst y 11 (spec_first_sunday_november y) 1"
proof -
  have s: "mktime (y, 3, spec_second_sunday_march y, 2, 0, 0, 0, 0, 0) = spec_dst_start y"
    and e: "mktime (y, 11, spec_first_sunday_november y, 2, 0, 0, 0, 0, 0) = spec_dst_end y"
    by (simp_all only: spec_dst_start_def spec_dst_end_def)
  have s1: "mktime (y, 3, spec_second_sunday_march y, 1, 0, 0, 0, 0, 0) = spec_dst_start y - 3600"
    and e1: "mktime (y, 11, spec_first_sunday_november y, 1, 0, 0, 0, 0, 0) = spec_dst_end y - 3600"
    unfolding spec_dst_start_eq spec_dst_end_eq by (simp_all add: mktime_hour days_before_month_vals)
  show "is_dst y 3 (spec_second_sunday_march y) 2"
    unfolding is_dst_spec s using dst_start_before_end[of y] by simp
  show "\<not> is_dst y 3 (spec_second_sunday_march y) 1"
    unfolding is_dst_spec s1 by linarith
  show "\<not> is_dst y 11 (spec_first_sunday_november y) 2"
    unfolding is_dst_spec e by linarith
  show "is_dst y 11 (spec_first_sunday_november y) 1"
    unfolding is_dst_spec e1 using dst_start_before_end[of y] by simp
qed

lemma days_before_month_summer:
  assumes "4 \<le> m" "m \<le> 10"
  shows "days_before_month y 3 + 31 \<le> days_before_month y m"
    "days_before_month y m + 31 \<le> days_before_month y 3 + 245"
proof -
  have "m \<in> {4, 5, 6, 7, 8, 9, 10}" using assms by simp arith
  then show "days_before_month y 3 + 31 \<le> days_before_month y m"
    "days_before_month y m + 31 \<le> days_before_month y 3 + 245"
    by (auto simp: days_before_month_vals)
qed

lemma is_dst_summer:
  assumes "4 \<le> m" "m \<le> 10" "1 \<le> d" "d \<le> 31" "0 \<le> h" "h \<le> 23"
  shows "is_dst y m d h"
proof -
  have m: "1 \<le> m" "m \<le> 12" using assms by linarith+
  note facts = days_before_month_summer[OF assms(1,2), of y] assms(3-6)
    second_sunday_range[of y] first_sunday_range[of y]
  have "spec_dst_start y \<le> mktime (y, m, d, h, 0, 0, 0, 0, 0)"
    unfolding mktime_hour[OF m] spec_dst_start_eq using facts by (simp add: algebra_simps)
  moreover have "mktime (y, m, d, h, 0, 0, 0, 0, 0) < spec_dst_end y"
    unfolding mktime_hour[OF m] spec_dst_end_eq using facts by (simp add: algebra_simps)
  ultimately show ?thesis unfolding is_dst_spec by (rule conjI)
qed

lemma is_dst_winter:
  assumes "m = 12 \<or> m = 1 \<or> m = 2" "1 \<le> d" "d \<le> 31" "0 \<le> h" "h \<le> 23"
  shows "\<not> is_dst y m d h"
proof -
  have m: "1 \<le> m" "m \<le> 12" using assms(1) by linarith+
  note facts = assms(2-5) second_sunday_range[of y] first_sunday_range[of y]
  have "days_before_month y m + 31 \<le> days_before_month y 3 + 3 \<or>
        days_before_month y 3 + 245 + 30 \<le> days_before_month y m"
    using assms(1) by (auto simp: days_before_month_vals)
  then show ?thesis
  proof
    assume "days_before_month y m + 31 \<le> days_before_month y 3 + 3"
    then have "mktime (y, m, d, h, 0, 0, 0, 0, 0) < spec_dst_start y"
      unfolding mktime_hour[OF m] spec_dst_start_eq using facts by (simp add: algebra_simps)
    then show ?thesis unfolding is_dst_spec by linarith
  next
    assume "days_before_month y 3 + 245 + 30 \<le> days_before_month y m"
    then have "spec_dst_end y \<le> mktime (y, m, d, h, 0, 0, 0, 0, 0)"
      unfolding mktime_hour[OF m] spec_dst_end_eq using facts by (simp add: algebra_simps)
    then show ?thesis unfolding is_dst_spec by linarith
  qed
qed

lemma is_dst_march_november:
  "\<not> is_dst y 3 1 0" "is_dst y 3 31 0" "is_dst y 11 1 0" "\<not> is_dst y 11 30 0"
proof -
  note facts = second_sunday_range[of y] first_sunday_range[of y]
  have "mktime (y, 3, 1, 0, 0, 0, 0, 0, 0) < spec_dst_start y"
    unfolding spec_dst_start_eq using facts by (simp add: mktime_hour)
  then show "\<not> is_dst y 3 1 0" unfolding is_dst_spec by linarith
  have "spec_dst_start y \<le> mktime (y, 3, 31, 0, 0, 0, 0, 0, 0)"
    "mktime (y, 3, 31, 0, 0, 0, 0, 0, 0) < spec_dst_end y"
    unfolding spec_dst_start_eq spec_dst_end_eq using facts by (simp_all add: mktime_hour)
  then show "is_dst y 3 31 0" unfolding is_dst_spec by (rule conjI)
  have "spec_dst_start y \<le> mktime (y, 11, 1, 0, 0, 0, 0, 0, 0)"
    "mktime (y, 11, 1, 0, 0, 0, 0, 0, 0) < spec_dst_end y"
    unfolding spec_dst_start_eq spec_dst_end_eq using facts
    by (simp_all add: mktime_hour days_before_month_vals)
  then show "is_dst y 11 1 0" unfolding is_dst_spec by (rule conjI)
  have "spec_dst_end y \<le> mktime (y, 11, 30, 0, 0, 0, 0, 0, 0)"
    unfolding spec_dst_end_eq using facts by (simp add: mktime_hour days_before_month_vals)
  then show "\<not> is_dst y 11 30 0" unfolding is_dst_spec by linarith
qed

section \<open>The claims about the calendar arithmetic\<close>

lemma is_leap_year_dvd: "is_leap_year Y \<longleftrightarrow> 4 dvd Y \<and> (\<not> 100 dvd Y \<or> 400 dvd Y)"
  by (simp add: is_leap_year_def dvd_eq_mod_eq_0)

lemma month_days_eq: "month_days y = days_in_months y"
  unfolding month_days_def days_in_months_def Let_def is_leap_year_dvd tm_leap_def
  by (cases "4 dvd y \<and> (\<not> 100 dvd y \<or> 400 dvd y)") simp_all

lemma compute_yearday_eq: "1 \<le> m \<Longrightarrow> compute_yearday y m d = days_before_month y m + d"
  by (simp add: compute_yearday_def py_slice_to_def days_before_month_def month_days_eq)

lemma spec_day_of_year_eq:
  assumes "1 \<le> m" "m \<le> 12"
  shows "spec_day_of_year y m d = days_before_month y m + d"
proof -
  have "m \<in> {1,2,3,4,5,6,7,8,9,10,11,12}" using assms by (rule month_cases)
  then show ?thesis
    unfolding spec_day_of_year_def spec_month_length_def tm_leap_def[symmetric]
    by (auto simp: days_before_month_vals upto_rec1)
qed

text \<open>
  C8. For every year \<open>Y\<close> the leap-year test of \<open>compute_yearday\<close> holds exactly when
  \<open>Y\<close> is divisible by 4 and is not divisible by 100 or is divisible by 400, and this
  is what decides the February entry of the month table; it holds for 2000 and 2024 and
  fails for 1900 and 2023.
\<close>

theorem is_leap_year_gregorian:
  "(is_leap_year Y \<longleftrightarrow> 4 dvd Y \<and> (\<not> 100 dvd Y \<or> 400 dvd Y)) \<and>
   month_days Y ! 1 = (if 4 dvd Y \<and> (\<not> 100 dvd Y \<or> 400 dvd Y) then 29 else 28) \<and>
   is_leap_year 2000 \<and> is_leap_year 2024 \<and> \<not> is_leap_year 1900 \<and> \<not> is_leap_year 2023"
proof -
  have "month_days Y ! 1 = (if is_leap_year Y then 29 else 28)"
    by (simp add: month_days_def)
  moreover have "is_leap_year 2000" "is_leap_year 2024" "\<not> is_leap_year 1900" "\<not> is_leap_year 2023"
    by (simp_all add: is_leap_year_def)
  ultimately show ?thesis by (simp only: is_leap_year_dvd simp_thms)
qed

theorem is_leap_year_gregorian_witness:
  "is_leap_year 1600 \<and> \<not> is_leap_year 2100 \<and> month_days 1600 ! 1 = 29 \<and> month_days 2100 ! 1 = 28"
  using is_leap_year_gregorian[of 1600] is_leap_year_gregorian[of 2100] by simp

text \<open>
  C7. For every well-formed date, \<open>compute_yearday\<close> returns the sum of the lengths of
  the months before the given one, February counted as 29 exactly in a leap year, plus the
  day, a value from 1 to 366. It returns 1 for January 1 of every year, and for December 31
  it returns 366 in a leap year and 365 otherwise.
\<close>

theorem compute_yearday_spec:
  assumes "valid_date year month day"
  shows "compute_yearday year month day = spec_day_of_year year month day \<and>
         1 \<le> compute_yearday year month day \<and> compute_yearday year month day \<le> 366 \<and>
         compute_yearday year 1 1 = 1 \<and>
         compute_yearday year 12 31 =
           (if 4 dvd year \<and> (\<not> 100 dvd year \<or> 400 dvd year) then 366 else 365)"
proof -
  have m: "1 \<le> month" "month \<le> 12" and d: "1 \<le> day" "day \<le> spec_month_length year month"
    using assms by (simp_all add: valid_date_def)
  have eq: "compute_yearday year month day = spec_day_of_year year month day"
    by (simp only: compute_yearday_eq[OF m(1)] spec_day_of_year_eq[OF m])
  have c: "compute_yearday year month day = days_before_month year month + day"
    by (rule compute_yearday_eq[OF m(1)])
  have pos: "\<forall>l \<in> set (days_in_months year). 0 < l" by (rule days_in_months_pos)
  have i: "nat (month - 1) < length (days_in_months year)"
    using m by (simp add: length_days_in_months)
  have "0 \<le> days_before_month year month"
    unfolding days_before_month_def using pos by (rule sum_list_take_nonneg)
  moreover have "days_before_month year month + spec_month_length year month \<le> sum_list (days_in_months year)"
    unfolding days_before_month_def days_in_months_nth[OF m, symmetric]
    using pos i by (rule sum_list_take_Suc_le)
  moreover have "sum_list (days_in_months year) \<le> 366" by (simp add: sum_days_in_months)
  ultimately have rng: "1 \<le> compute_yearday year month day" "compute_yearday year month day \<le> 366"
    unfolding c using d by linarith+
  have jan: "compute_yearday year 1 1 = 1"
    by (simp add: compute_yearday_eq days_before_month_vals)
  have dec: "compute_yearday year 12 31 = (if tm_leap year then 366 else 365)"
    by (simp add: compute_yearday_eq days_before_month_vals)
  show ?thesis using eq rng jan dec unfolding tm_leap_def by (simp only: simp_thms)
qed

theorem compute_yearday_spec_witness:
  "valid_date 2024 2 29 \<and> compute_yearday 2024 2 29 = 60 \<and> spec_day_of_year 2024 2 29 = 60 \<and>
   compute_yearday 2024 12 31 = 366"
proof -
  have v: "valid_date 2024 2 29" by (simp add: valid_date_def spec_month_length_def)
  have s: "spec_day_of_year 2024 2 29 = 60"
    by (simp add: spec_day_of_year_def spec_month_length_def upto_rec1)
  show ?thesis using v s compute_yearday_spec[OF v] by simp
qed

section \<open>The claims about the daylight-saving rule\<close>

text \<open>
  C1. For every year, \<open>is_dst\<close> takes the second Sunday of March to be day
  \<open>1 + ((6 - w) mod 7) + 7\<close>, with \<open>w\<close> the weekday of March 1, and the first Sunday of
  November to be day \<open>1 + ((6 - w') mod 7)\<close>, with \<open>w'\<close> the weekday of November 1, and
  it returns true exactly when the instant (year, month, day, hour, 0, 0) is at or after
  02:00 of that day of March and before 02:00 of that day of November. The instant of the
  start is inside the window and the one an hour before is outside; the instant of the end
  is outside and the one an hour before is inside. The two days are Sundays, the first
  among days 8 to 14 of March and the second among days 1 to 7 of November.
\<close>

theorem is_dst_half_open_window:
  "(is_dst year month day hour \<longleftrightarrow>
      spec_dst_start year \<le> mktime (year, month, day, hour, 0, 0, 0, 0, 0) \<and>
      mktime (year, month, day, hour, 0, 0, 0, 0, 0) < spec_dst_end year) \<and>
   is_dst year 3 (spec_second_sunday_march year) 2 \<and>
   \<not> is_dst year 3 (spec_second_sunday_march year) 1 \<and>
   \<not> is_dst year 11 (spec_first_sunday_november year) 2 \<and>
   is_dst year 11 (spec_first_sunday_november year) 1 \<and>
   mktime (year, 3, spec_second_sunday_march year, 1, 0, 0, 0, 0, 0) = spec_dst_start year - 3600 \<and>
   mktime (year, 11, spec_first_sunday_november year, 1, 0, 0, 0, 0, 0) = spec_dst_end year - 3600 \<and>
   weekday_of year 3 (spec_second_sunday_march year) = 6 \<and>
   8 \<le> spec_second_sunday_march year \<and> spec_second_sunday_march year \<le> 14 \<and>
   weekday_of year 11 (spec_first_sunday_november year) = 6 \<and>
   1 \<le> spec_first_sunday_november year \<and> spec_first_sunday_november year \<le> 7"
proof -
  have "mktime (year, 3, spec_second_sunday_march year, 1, 0, 0, 0, 0, 0) = spec_dst_start year - 3600"
    "mktime (year, 11, spec_first_sunday_november year, 1, 0, 0, 0, 0, 0) = spec_dst_end year - 3600"
    unfolding spec_dst_start_eq spec_dst_end_eq by (simp_all add: mktime_hour days_before_month_vals)
  then show ?thesis
    using is_dst_spec[of year month day hour] is_dst_boundaries[of year]
      second_sunday_is_sunday[of year] first_sunday_is_sunday[of year]
      second_sunday_range[of year] first_sunday_range[of year]
    by (simp only: simp_thms)
qed

lemma sundays_2024: "spec_second_sunday_march 2024 = 10" "spec_first_sunday_november 2024 = 3"
proof -
  have v: "valid_date 2024 3 1" "valid_date 2024 11 1" by (simp_all add: valid_date_month_start)
  have l: "tm_leap 2024" by (simp add: tm_leap_def)
  have "days_before_year 2024 = 738885" by (simp add: days_before_year_def)
  then have "ymd_to_ord 2024 3 1 = 738946" "ymd_to_ord 2024 11 1 = 739191"
    using l by (simp_all add: ymd_to_ord_def days_before_month_vals)
  then have "weekday_of 2024 3 1 = 4" "weekday_of 2024 11 1 = 4"
    unfolding weekday_of_eq[OF v(1)] weekday_of_eq[OF v(2)] by (simp_all add: epoch_ord_def)
  then show "spec_second_sunday_march 2024 = 10" "spec_first_sunday_november 2024 = 3"
    by (simp_all add: spec_second_sunday_march_def spec_first_sunday_november_def)
qed

theorem is_dst_half_open_window_witness:
  "is_dst 2024 3 10 2 \<and> \<not> is_dst 2024 3 10 1 \<and> \<not> is_dst 2024 11 3 2 \<and> is_dst 2024 11 3 1 \<and>
   weekday_of 2024 3 10 = 6 \<and> weekday_of 2024 11 3 = 6"
  using is_dst_half_open_window[of 2024 3 10 2] unfolding sundays_2024 by blast

text \<open>
  C10. For every year, every day of a month (1 to 31) and every hour of a day (0 to 23),
  \<open>is_dst\<close> returns true when the month is one of April to October and false when it
  is December, January or February; so among the twelve months the result can depend on
  the day and the hour only in March and in November, where it does.
\<close>

theorem is_dst_by_month:
  assumes "1 \<le> day" "day \<le> 31" "0 \<le> hour" "hour \<le> 23"
  shows "(4 \<le> month \<and> month \<le> 10 \<longrightarrow> is_dst year month day hour) \<and>
         (month = 12 \<or> month = 1 \<or> month = 2 \<longrightarrow> \<not> is_dst year month day hour) \<and>
         (1 \<le> month \<and> month \<le> 12 \<and> month \<noteq> 3 \<and> month \<noteq> 11 \<and>
          1 \<le> day' \<and> day' \<le> 31 \<and> 0 \<le> hour' \<and> hour' \<le> 23 \<longrightarrow>
            is_dst year month day' hour' = is_dst year month day hour) \<and>
         is_dst year 3 1 0 \<noteq> is_dst year 3 31 0 \<and>
         is_dst year 11 1 0 \<noteq> is_dst year 11 30 0"
proof (intro conjI impI)
  assume "4 \<le> month \<and> month \<le> 10"
  then show "is_dst year month day hour" using assms by (intro is_dst_summer) simp_all
next
  assume "month = 12 \<or> month = 1 \<or> month = 2"
  then show "\<not> is_dst year month day hour" using assms by (intro is_dst_winter) simp_all
next
  assume a: "1 \<le> month \<and> month \<le> 12 \<and> month \<noteq> 3 \<and> month \<noteq> 11 \<and>
          1 \<le> day' \<and> day' \<le> 31 \<and> 0 \<le> hour' \<and> hour' \<le> 23"
  then consider "4 \<le> month \<and> month \<le> 10" | "month = 12 \<or> month = 1 \<or> month = 2" by linarith
  then show "is_dst year month day' hour' = is_dst year month day hour"
  proof cases
    case 1
    then have "is_dst year month day' hour'" "is_dst year month day hour"
      using a assms by (simp_all add: is_dst_summer)
    then show ?thesis by simp
  next
    case 2
    then have "\<not> is_dst year month day' hour'" "\<not> is_dst year month day hour"
      using a assms by (simp_all add: is_dst_winter)
    then show ?thesis by simp
  qed
next
  show "is_dst year 3 1 0 \<noteq> is_dst year 3 31 0" using is_dst_march_november[of year] by simp
  show "is_dst year 11 1 0 \<noteq> is_dst year 11 30 0" using is_dst_march_november[of year] by simp
qed

theorem is_dst_by_month_witness:
  "(1::int) \<le> 15 \<and> (15::int) \<le> 31 \<and> (0::int) \<le> 18 \<and> (18::int) \<le> 23 \<and>
   is_dst 2024 7 15 18 \<and> \<not> is_dst 2024 1 15 18 \<and> is_dst 2024 7 1 0 = is_dst 2024 7 15 18"
  using is_dst_by_month[of 15 18 7 2024 1 0] is_dst_by_month[of 15 18 1 2024 1 0] by simp

section \<open>The claims about the conversion to local time\<close>

lemmas mktime_eval = mktime.simps ymd_to_ord_def days_before_year_def days_before_month_def
  days_in_months_def tm_leap_def epoch_ord_def Let_def

lemma instant_of_localtime_mktime:
  assumes "valid_date y m d" "valid_clock h mi s"
  shows "instant_of (localtime (mktime (y, m, d, h, mi, s, wd, yd, dst))) = (y, m, d, h, mi, s)"
  unfolding localtime_mktime[OF assms] instant_of_def by simp

text \<open>
  C6. For every well-formed UTC instant and each of the two offsets, -5 hours and
  -6 hours: the scalar of the breakdown obtained by adding the offset is the scalar of the
  instant plus the offset, that breakdown is itself well formed (whatever day, month or
  year the offset rolls over), and converting it back to a scalar, taking the offset away
  and breaking the result down gives the original instant.
\<close>

theorem utc_local_round_trip:
  assumes "valid_date y m d" "valid_clock h mi s" "off = - 5 * 3600 \<or> off = - 6 * 3600"
  shows "instant_of (localtime (mktime (y, m, d, h, mi, s, wd, 0, 0))) = (y, m, d, h, mi, s) \<and>
         mktime (tuple_of (localtime (mktime (y, m, d, h, mi, s, wd, 0, 0) + off))) =
           mktime (y, m, d, h, mi, s, wd, 0, 0) + off \<and>
         valid_date (tm_year (localtime (mktime (y, m, d, h, mi, s, wd, 0, 0) + off)))
                    (tm_mon (localtime (mktime (y, m, d, h, mi, s, wd, 0, 0) + off)))
                    (tm_mday (localtime (mktime (y, m, d, h, mi, s, wd, 0, 0) + off))) \<and>
         valid_clock (tm_hour (localtime (mktime (y, m, d, h, mi, s, wd, 0, 0) + off)))
                     (tm_min (localtime (mktime (y, m, d, h, mi, s, wd, 0, 0) + off)))
                     (tm_sec (localtime (mktime (y, m, d, h, mi, s, wd, 0, 0) + off))) \<and>
         instant_of (localtime
            (mktime (tuple_of (localtime (mktime (y, m, d, h, mi, s, wd, 0, 0) + off))) - off)) =
           (y, m, d, h, mi, s)"
proof -
  let ?utc = "mktime (y, m, d, h, mi, s, wd, 0, 0)"
  have a: "instant_of (localtime ?utc) = (y, m, d, h, mi, s)"
    by (rule instant_of_localtime_mktime[OF assms(1,2)])
  have b: "mktime (tuple_of (localtime (?utc + off))) = ?utc + off"
    by (rule mktime_localtime)
  have c: "instant_of (localtime (mktime (tuple_of (localtime (?utc + off))) - off)) = (y, m, d, h, mi, s)"
    unfolding b using a by simp
  show ?thesis
    using a b c localtime_valid[of "?utc + off"] by (simp only: simp_thms)
qed

lemma new_year_local:
  "localtime (mktime (2024, 1, 1, 3, 0, 0, 0, 0, 0) + - 6 * 3600) =
   \<lparr>tm_year = 2023, tm_mon = 12, tm_mday = 31, tm_hour = 21, tm_min = 0, tm_sec = 0,
    tm_wday = 6, tm_yday = 365, tm_isdst = - 1\<rparr>"
proof -
  have v: "valid_date 2023 12 31" "valid_clock 21 0 0"
    by (simp_all add: valid_date_def spec_month_length_def valid_clock_def)
  have e: "mktime (2024, 1, 1, 3, 0, 0, 0, 0, 0) + - 6 * 3600 = mktime (2023, 12, 31, 21, 0, 0, 0, 0, 0)"
    by (simp add: mktime_eval)
  have o: "ymd_to_ord 2023 12 31 = 738885" "days_before_year 2023 = 738520"
    by (simp_all add: mktime_eval)
  show ?thesis
    unfolding e localtime_mktime[OF v] o by (simp add: epoch_ord_def)
qed

theorem utc_local_round_trip_witness:
  "valid_date 2024 1 1 \<and> valid_clock 3 0 0 \<and>
   instant_of (localtime (mktime (2024, 1, 1, 3, 0, 0, 0, 0, 0) + - 6 * 3600)) = (2023, 12, 31, 21, 0, 0) \<and>
   instant_of (localtime (mktime (tuple_of (localtime (mktime (2024, 1, 1, 3, 0, 0, 0, 0, 0) + - 6 * 3600)))
       - - 6 * 3600)) = (2024, 1, 1, 3, 0, 0) \<and>
   instant_of (localtime (mktime (tuple_of (localtime (mktime (2024, 1, 1, 3, 0, 0, 0, 0, 0) + - 5 * 3600)))
       - - 5 * 3600)) = (2024, 1, 1, 3, 0, 0)"
proof -
  have v: "valid_date 2024 1 1" "valid_clock 3 0 0"
    by (simp_all add: valid_date_def spec_month_length_def valid_clock_def)
  have l: "instant_of (localtime (mktime (2024, 1, 1, 3, 0, 0, 0, 0, 0) + - 6 * 3600)) = (2023, 12, 31, 21, 0, 0)"
    unfolding new_year_local by (simp add: instant_of_def)
  have o: "(- 6 * 3600 :: int) = - 5 * 3600 \<or> (- 6 * 3600 :: int) = - 6 * 3600"
    "(- 5 * 3600 :: int) = - 5 * 3600 \<or> (- 5 * 3600 :: int) = - 6 * 3600" by simp_all
  show ?thesis
    using v l utc_local_round_trip[OF v o(1), of 0] utc_local_round_trip[OF v o(2), of 0]
    by blast
qed

section \<open>Properties of the clock synchroniser and the display driver\<close>

lemma mktime_ignores_tail:
  "mktime (y, m, d, h, mi, s, a, b, c) = mktime (y, m, d, h, mi, s, a', b', c')"
  by (simp add: mktime.simps)

lemma localtime_yday:
  "tm_yday (localtime secs) =
     compute_yearday (tm_year (localtime secs)) (tm_mon (localtime secs)) (tm_mday (localtime secs))"
proof -
  define D where "D = secs div 86400"
  obtain y m d where o: "ord_to_ymd (D + epoch_ord) = (y, m, d)" by (cases "ord_to_ymd (D + epoch_ord)")
  from ymd_to_ord_ord_to_ymd[OF o] have v: "valid_date y m d" and e: "ymd_to_ord y m d = D + epoch_ord"
    by simp_all
  have m: "1 \<le> m" using v by (simp add: valid_date_def)
  have "D + epoch_ord - days_before_year y = compute_yearday y m d"
    unfolding e[symmetric] compute_yearday_eq[OF m] by (simp add: ymd_to_ord_def)
  then show ?thesis
    unfolding localtime_def Let_def D_def[symmetric] o by simp
qed

lemma setup_time_eq:
  "setup_time (year, month, day, hour, minute, second, subsecond, weekday) dev =
     (let local = localtime (mktime (year, month, day, hour, minute, second, weekday, 0, 0) +
                    (if is_dst year month day hour then - 18000 else - 21600))
      in dev\<lparr>rtc_datetime :=
               (tm_year local, tm_mon local, tm_mday local, tm_hour local, tm_min local,
                tm_sec local, tm_wday local,
                compute_yearday (tm_year local) (tm_mon local) (tm_mday local), - 1),
             rtc_writes := rtc_writes dev + 1\<rparr>)"
  by (simp add: setup_time.simps Let_def)

lemma refresh_loop_final:
  assumes "\<not> transient final"
  shows "refresh_loop (final ## rest) dev =
     Some (outcome_result final, dev\<lparr>refresh_calls := refresh_calls dev + 1\<rparr>, rest)"
  using assms
  by (subst refresh_loop.simps)
     (simp add: transient_def outcome_result_def Let_def split: refresh_outcome.splits)

lemma refresh_loop_transient:
  assumes "transient failure"
  shows "refresh_loop (failure ## rest) dev =
     refresh_loop rest (dev\<lparr>refresh_calls := refresh_calls dev + 1, sleeps := sleeps dev @ [5]\<rparr>)"
  using assms
  by (subst refresh_loop.simps)
     (simp add: transient_def Let_def split: refresh_outcome.splits)

lemma refresh_loop_prefix:
  assumes "\<forall>outcome \<in> set failures. transient outcome"
  shows "refresh_loop (failures @- rest) dev =
     refresh_loop rest (dev\<lparr>refresh_calls := refresh_calls dev + length failures,
                             sleeps := sleeps dev @ replicate (length failures) 5\<rparr>)"
  using assms
proof (induction failures arbitrary: dev)
  case Nil
  then show ?case by simp
next
  case (Cons f fs)
  then have "transient f" "\<forall>outcome \<in> set fs. transient outcome" by simp_all
  then show ?case
    by (simp add: refresh_loop_transient Cons.IH replicate_append_same)
qed

lemma refresh_loop_frame:
  assumes "refresh_loop outcomes dev = Some res"
  shows "rtc_datetime (fst (snd res)) = rtc_datetime dev \<and>
         rtc_writes (fst (snd res)) = rtc_writes dev \<and>
         time_label_text (fst (snd res)) = time_label_text dev"
  using assms
proof (induction outcomes dev res rule: refresh_loop.raw_induct[rotated 1, consumes 1])
  case (1 loop outcomes dev res)
  show ?case
  proof (cases "shd outcomes")
    case Refreshed
    then show ?thesis using 1(2) by (auto simp: Let_def)
  next
    case (Raised e)
    show ?thesis
    proof (cases "is_too_soon e")
      case True
      then have "loop (stl outcomes)
          (dev\<lparr>refresh_calls := refresh_calls dev + 1, sleeps := sleeps dev @ [5]\<rparr>) = Some res"
        using 1(2) Raised by (simp add: Let_def)
      from 1(1)[OF this] show ?thesis by simp
    next
      case False
      then show ?thesis using 1(2) Raised by (auto simp: Let_def)
    qed
  qed
qed

lemma refresh_loop_returns:
  assumes "refresh_loop outcomes dev = Some res"
  shows "\<exists>outcome \<in> sset outcomes. \<not> transient outcome"
  using assms
proof (induction outcomes dev res rule: refresh_loop.raw_induct[rotated 1, consumes 1])
  case (1 loop outcomes dev res)
  show ?case
  proof (cases "transient (shd outcomes)")
    case False
    then show ?thesis using shd_sset[of outcomes] by blast
  next
    case True
    then obtain e where e: "shd outcomes = Raised e" "is_too_soon e"
      by (auto simp: transient_def split: refresh_outcome.splits)
    then have "loop (stl outcomes)
        (dev\<lparr>refresh_calls := refresh_calls dev + 1, sleeps := sleeps dev @ [5]\<rparr>) = Some res"
      using 1(2) by (simp add: Let_def)
    from 1(1)[OF this] obtain outcome where "outcome \<in> sset (stl outcomes)" "\<not> transient outcome"
      by blast
    then show ?thesis using stl_sset[of outcome outcomes] by blast
  qed
qed

lemma refresh_loop_forever:
  assumes "\<forall>outcome \<in> sset outcomes. transient outcome"
  shows "refresh_loop outcomes dev = None"
proof (cases "refresh_loop outcomes dev")
  case None
  then show ?thesis .
next
  case (Some res)
  from refresh_loop_returns[OF this] assms show ?thesis by blast
qed

lemma str_nat_digit: "n < 10 \<Longrightarrow> str_nat n = [digit_char n]"
  by (subst str_nat.simps) simp

lemma format_02d_two_digits:
  assumes "0 \<le> i" "i \<le> 99"
  shows "format_02d i = [digit_char (nat (i div 10)), digit_char (nat (i mod 10))]"
proof (cases "i < 10")
  case True
  then have "i div 10 = 0" "i mod 10 = i" using assms by simp_all
  moreover have "str_nat (nat i) = [digit_char (nat i)]" using True by (intro str_nat_digit) simp
  ultimately show ?thesis using assms by (simp add: format_02d_def digit_char_def)
next
  case False
  define n where "n = nat i"
  have n: "\<not> n < 10" "n div 10 < 10" using False assms by (simp_all add: n_def)
  have "str_nat n = str_nat (n div 10) @ [digit_char (n mod 10)]"
    using n(1) by (subst str_nat.simps) simp
  then have "str_nat n = [digit_char (n div 10), digit_char (n mod 10)]"
    using n(2) by (simp add: str_nat_digit)
  moreover have "nat (i div 10) = n div 10" "nat (i mod 10) = n mod 10"
    using assms by (simp_all add: n_def nat_div_distrib nat_mod_distrib)
  ultimately show ?thesis using assms by (simp add: format_02d_def n_def)
qed

lemma is_digit_digit_char: "n < 10 \<Longrightarrow> is_digit (digit_char n)"
  unfolding is_digit_def digit_char_def by (intro nth_mem) simp

lemma two_digits_are_digits:
  assumes "0 \<le> i" "i \<le> 99"
  shows "is_digit (digit_char (nat (i div 10)))" "is_digit (digit_char (nat (i mod 10)))"
proof -
  have "i div 10 < 10" using assms by simp
  then show "is_digit (digit_char (nat (i div 10)))" using assms by (intro is_digit_digit_char) simp
  have "i mod 10 < 10" by simp
  then show "is_digit (digit_char (nat (i mod 10)))" by (intro is_digit_digit_char) simp
qed

lemma update_display_time_label:
  assumes "update_display_time outcomes dev = Some (r, dev', outcomes')"
  shows "time_label_text dev' = time_label_text (set_time_label dev)"
  using refresh_loop_frame[OF assms[unfolded update_display_time_def]] by simp

lemma set_time_label_frame:
  "rtc_datetime (set_time_label dev) = rtc_datetime dev"
  "rtc_writes (set_time_label dev) = rtc_writes dev"
  "refresh_calls (set_time_label dev) = refresh_calls dev"
  "sleeps (set_time_label dev) = sleeps dev"
  by (simp_all add: set_time_label_def split: prod.splits)

section \<open>The claims about the display driver\<close>

text \<open>
  C5, as amended. For every clock reading with hour in 0 to 23 and minute in 0 to 59, the
  driver converts the hour to 12-hour form (0 gives 12 AM, 1 to 11 the same hour AM, 12
  gives 12 PM, 13 to 23 the hour less 12 PM), and the string it assigns to the time label
  is \<open>Time: \<close> followed by a string of the shape \<open>HH:MM AM|PM\<close> with two-digit,
  zero-padded hour and minute; hour 13 and minute 5 give \<open>Time: 01:05 PM\<close>. The label
  still has that text when \<open>update_display_time\<close> returns.
\<close>

theorem time_label_format:
  assumes "rtc_datetime dev = (year, month, day, hours_24, minutes, second, weekday, yearday, isdst)"
    and "0 \<le> hours_24" "hours_24 \<le> 23" "0 \<le> minutes" "minutes \<le> 59"
  shows "to_12_hour hours_24 =
           (if hours_24 = 0 then (12, ''AM'')
            else if hours_24 \<le> 11 then (hours_24, ''AM'')
            else if hours_24 = 12 then (12, ''PM'')
            else (hours_24 - 12, ''PM'')) \<and>
         time_label_text (set_time_label dev) = ''Time: '' @ current_time_str hours_24 minutes \<and>
         current_time_str hours_24 minutes =
           [digit_char (nat (fst (to_12_hour hours_24) div 10)),
            digit_char (nat (fst (to_12_hour hours_24) mod 10)),
            CHR '':'',
            digit_char (nat (minutes div 10)), digit_char (nat (minutes mod 10)),
            CHR '' ''] @ snd (to_12_hour hours_24) \<and>
         is_hh_mm_meridiem (current_time_str hours_24 minutes) \<and>
         (update_display_time outcomes dev = Some (r, dev', outcomes') \<longrightarrow>
            time_label_text dev' = ''Time: '' @ current_time_str hours_24 minutes)"
proof -
  obtain h12 mer where hm: "to_12_hour hours_24 = (h12, mer)" by (cases "to_12_hour hours_24")
  have conv: "to_12_hour hours_24 =
           (if hours_24 = 0 then (12, ''AM'')
            else if hours_24 \<le> 11 then (hours_24, ''AM'')
            else if hours_24 = 12 then (12, ''PM'')
            else (hours_24 - 12, ''PM''))"
    by (simp add: to_12_hour_def)
  have h12: "0 \<le> h12" "h12 \<le> 99" and mer: "mer = ''AM'' \<or> mer = ''PM''"
    using hm assms(2,3) by (auto simp: to_12_hour_def split: if_splits)
  have m: "0 \<le> minutes" "minutes \<le> 99" using assms(4,5) by simp_all
  have lab: "time_label_text (set_time_label dev) = ''Time: '' @ current_time_str hours_24 minutes"
    by (simp add: set_time_label_def assms(1))
  have str: "current_time_str hours_24 minutes =
      [digit_char (nat (h12 div 10)), digit_char (nat (h12 mod 10)), CHR '':'',
       digit_char (nat (minutes div 10)), digit_char (nat (minutes mod 10)), CHR '' ''] @ mer"
    by (simp add: current_time_str_def hm format_02d_two_digits[OF h12] format_02d_two_digits[OF m])
  have shape: "is_hh_mm_meridiem (current_time_str hours_24 minutes)"
    unfolding str using mer two_digits_are_digits[OF h12] two_digits_are_digits[OF m]
    by (auto simp: is_hh_mm_meridiem_def)
  have ret: "update_display_time outcomes dev = Some (r, dev', outcomes') \<longrightarrow>
            time_label_text dev' = ''Time: '' @ current_time_str hours_24 minutes"
    using update_display_time_label[of outcomes dev r dev' outcomes'] lab by simp
  have fs: "fst (to_12_hour hours_24) = h12" "snd (to_12_hour hours_24) = mer"
    using hm by simp_all
  show ?thesis unfolding fs using conv lab str shape ret by (simp only: simp_thms)
qed

lemma current_time_str_13_05: "current_time_str 13 5 = ''01:05 PM''"
  by (simp add: current_time_str_def to_12_hour_def format_02d_two_digits digit_char_def)

theorem time_label_format_witness:
  "(0::int) \<le> 13 \<and> (13::int) \<le> 23 \<and> (0::int) \<le> 5 \<and> (5::int) \<le> 59 \<and>
   to_12_hour 13 = (1, ''PM'') \<and>
   time_label_text (set_time_label
     \<lparr>rtc_datetime = (2024, 7, 15, 13, 5, 0, 0, 197, - 1), rtc_writes = 1,
      time_label_text = ''Time: --:--'', refresh_calls = 1, sleeps = []\<rparr>) = ''Time: 01:05 PM'' \<and>
   is_hh_mm_meridiem ''01:05 PM''"
proof -
  let ?dev = "\<lparr>rtc_datetime = (2024, 7, 15, 13, 5, 0, 0, 197, - 1), rtc_writes = 1,
      time_label_text = ''Time: --:--'', refresh_calls = 1, sleeps = []\<rparr>"
  have r: "rtc_datetime ?dev = (2024, 7, 15, 13, 5, 0, 0, 197, - 1)" by simp
  have h: "(0::int) \<le> 13" "(13::int) \<le> 23" "(0::int) \<le> 5" "(5::int) \<le> 59" by simp_all
  note t = time_label_format[OF r h, of "sconst Refreshed" "Inr ()" ?dev "sconst Refreshed",
      unfolded current_time_str_13_05]
  have a: "to_12_hour 13 = (1, ''PM'')"
    using t[THEN conjunct1] by simp
  have b: "time_label_text (set_time_label ?dev) = ''Time: 01:05 PM''"
    using t[THEN conjunct2, THEN conjunct1] by simp
  have c: "is_hh_mm_meridiem ''01:05 PM''"
    using t[THEN conjunct2, THEN conjunct2, THEN conjunct2, THEN conjunct1] .
  show ?thesis
    using h a b c by (simp only: simp_thms)
qed

theorem time_label_shape_counterexample:
  "time_label_text (set_time_label
     \<lparr>rtc_datetime = (2024, 7, 15, 13, 5, 0, 0, 197, - 1), rtc_writes = 1,
      time_label_text = ''Time: --:--'', refresh_calls = 1, sleeps = []\<rparr>) = ''Time: 01:05 PM'' \<and>
   time_label_text (set_time_label
     \<lparr>rtc_datetime = (2024, 7, 15, 13, 5, 0, 0, 197, - 1), rtc_writes = 1,
      time_label_text = ''Time: --:--'', refresh_calls = 1, sleeps = []\<rparr>) \<noteq> ''01:05 PM'' \<and>
   \<not> is_hh_mm_meridiem (time_label_text (set_time_label
     \<lparr>rtc_datetime = (2024, 7, 15, 13, 5, 0, 0, 197, - 1), rtc_writes = 1,
      time_label_text = ''Time: --:--'', refresh_calls = 1, sleeps = []\<rparr>))"
  by (simp add: set_time_label_def current_time_str_13_05 is_hh_mm_meridiem_def)

text \<open>
  C4. \<open>transient\<close> holds of exactly the attempts that raise a \<open>RuntimeError\<close> whose
  text contains \<open>Refresh too soon\<close>. For every run of such attempts, however long,
  followed by an attempt that is not transient, the driver sleeps 5 seconds once after
  each of the transient attempts, makes no attempt after the final one, and ends as the
  final one does: it returns normally if that succeeded and raises its error if it failed,
  without a sleep after it. If every attempt is transient the driver never returns. Two
  transient attempts followed by a success give exactly two sleeps of 5 seconds and a
  normal return; another error on the first attempt is raised at once, with no sleep.
\<close>

theorem refresh_retry_machine:
  assumes "\<forall>outcome \<in> set failures. transient outcome" "\<not> transient final"
  shows "update_display_time (failures @- final ## rest) dev =
           Some (outcome_result final,
                 (set_time_label dev)\<lparr>refresh_calls := refresh_calls dev + length failures + 1,
                                        sleeps := sleeps dev @ replicate (length failures) 5\<rparr>,
                 rest) \<and>
         ((\<forall>outcome \<in> sset outcomes. transient outcome) \<longrightarrow>
            update_display_time outcomes dev = None) \<and>
         update_display_time
           (Raised (RuntimeError ''Refresh too soon'') ## Raised (RuntimeError ''Refresh too soon'') ##
            Refreshed ## rest) dev =
           Some (Inr (), (set_time_label dev)\<lparr>refresh_calls := refresh_calls dev + 3,
                                                sleeps := sleeps dev @ [5, 5]\<rparr>, rest) \<and>
         (\<not> is_too_soon e \<longrightarrow>
            update_display_time (Raised e ## rest) dev =
              Some (Inl e, (set_time_label dev)\<lparr>refresh_calls := refresh_calls dev + 1\<rparr>, rest)) \<and>
         update_display_time (Refreshed ## rest) dev =
           Some (Inr (), (set_time_label dev)\<lparr>refresh_calls := refresh_calls dev + 1\<rparr>, rest) \<and>
         (transient (Raised (RuntimeError msg)) \<longleftrightarrow> contains ''Refresh too soon'' msg) \<and>
         \<not> transient (Raised (OtherException msg)) \<and> \<not> transient Refreshed"
proof -
  have general: "update_display_time (fs @- f ## rest) dev =
           Some (outcome_result f,
                 (set_time_label dev)\<lparr>refresh_calls := refresh_calls dev + length fs + 1,
                                        sleeps := sleeps dev @ replicate (length fs) 5\<rparr>,
                 rest)"
    if "\<forall>outcome \<in> set fs. transient outcome" "\<not> transient f" for fs f
    unfolding update_display_time_def refresh_loop_prefix[OF that(1)] refresh_loop_final[OF that(2)]
    by (simp add: set_time_label_frame)
  have too_soon: "transient (Raised (RuntimeError ''Refresh too soon''))"
    by (simp add: transient_def is_too_soon_def)
  have ok: "\<not> transient Refreshed" by (simp add: transient_def)
  have two: "update_display_time
           (Raised (RuntimeError ''Refresh too soon'') ## Raised (RuntimeError ''Refresh too soon'') ##
            Refreshed ## rest) dev =
           Some (Inr (), (set_time_label dev)\<lparr>refresh_calls := refresh_calls dev + 3,
                                                sleeps := sleeps dev @ [5, 5]\<rparr>, rest)"
    using general[of "[Raised (RuntimeError ''Refresh too soon''), Raised (RuntimeError ''Refresh too soon'')]" Refreshed]
      too_soon ok
    by (simp add: outcome_result_def numeral_eq_Suc)
  have other: "\<not> is_too_soon e \<longrightarrow>
            update_display_time (Raised e ## rest) dev =
              Some (Inl e, (set_time_label dev)\<lparr>refresh_calls := refresh_calls dev + 1\<rparr>, rest)"
    using general[of "[]" "Raised e"]
    by (simp add: transient_def outcome_result_def set_time_label_frame)
  have first: "update_display_time (Refreshed ## rest) dev =
           Some (Inr (), (set_time_label dev)\<lparr>refresh_calls := refresh_calls dev + 1\<rparr>, rest)"
    using general[of "[]" Refreshed] ok
    by (simp add: outcome_result_def set_time_label_frame)
  have forever: "(\<forall>outcome \<in> sset outcomes. transient outcome) \<longrightarrow>
            update_display_time outcomes dev = None"
    unfolding update_display_time_def by (simp add: refresh_loop_forever)
  have cls: "transient (Raised (RuntimeError msg)) \<longleftrightarrow> contains ''Refresh too soon'' msg"
    "\<not> transient (Raised (OtherException msg))"
    by (simp_all add: transient_def is_too_soon_def)
  show ?thesis
    using general[OF assms] forever two other first cls ok by (simp only: simp_thms)
qed

theorem refresh_retry_machine_witness:
  "update_display_time
     ([Raised (RuntimeError ''display: Refresh too soon''), Raised (RuntimeError ''Refresh too soon'')] @-
      Raised (RuntimeError ''Display busy'') ## sconst Refreshed)
     \<lparr>rtc_datetime = (2024, 7, 15, 13, 5, 0, 0, 197, - 1), rtc_writes = 1,
      time_label_text = ''Time: --:--'', refresh_calls = 1, sleeps = []\<rparr> =
   Some (Inl (RuntimeError ''Display busy''),
     \<lparr>rtc_datetime = (2024, 7, 15, 13, 5, 0, 0, 197, - 1), rtc_writes = 1,
      time_label_text = ''Time: 01:05 PM'', refresh_calls = 4, sleeps = [5, 5]\<rparr>,
     sconst Refreshed)"
proof -
  have f: "\<forall>outcome \<in> set [Raised (RuntimeError ''display: Refresh too soon''),
              Raised (RuntimeError ''Refresh too soon'')]. transient outcome"
    by (simp add: transient_def is_too_soon_def)
  have l: "\<not> transient (Raised (RuntimeError ''Display busy''))"
    by (simp add: transient_def is_too_soon_def)
  show ?thesis
    using refresh_retry_machine[OF f l, THEN conjunct1]
    by (simp add: outcome_result_def set_time_label_def current_time_str_13_05 numeral_eq_Suc)
qed

end
